theory Spec2Isabelle
  imports Main "HOL-Library.Word" "HOL-Library.Multiset"
begin

section \<open>Messages and the request heap\<close>

text \<open>
  Go's \<^verbatim>\<open>int\<close> is modelled at 64 bits (amd64, arm64): \<open>+\<close> wraps, and the
  comparisons of the source are comparisons of the two's complement readings \<open>sint\<close>.
\<close>

type_synonym go_int = "64 word"

record Message =
  Type :: go_int
  Proc :: go_int
  Time :: go_int

definition MessageRequest :: go_int where "MessageRequest = 0"
definition MessageRelease :: go_int where "MessageRelease = 1"
definition MessageAck :: go_int where "MessageAck = 2"

type_synonym MessageHeap = "Message list"

definition Len :: "MessageHeap \<Rightarrow> nat" where
  "Len mh = length mh"

text \<open>
  \<^verbatim>\<open>Less\<close>: true when the time of entry \<open>i\<close> is smaller; in every other case the
  answer is the comparison of the origin processes.
\<close>

definition Less :: "MessageHeap \<Rightarrow> nat \<Rightarrow> nat \<Rightarrow> bool" where
  "Less mh i j =
     (if sint (Time (mh ! i)) < sint (Time (mh ! j)) then True
      else sint (Proc (mh ! i)) < sint (Proc (mh ! j)))"

definition Swap :: "MessageHeap \<Rightarrow> nat \<Rightarrow> nat \<Rightarrow> MessageHeap" where
  "Swap mh i j = mh[i := mh ! j, j := mh ! i]"

definition Push :: "MessageHeap \<Rightarrow> Message \<Rightarrow> MessageHeap" where
  "Push mh x = mh @ [x]"

text \<open>\<^verbatim>\<open>Pop\<close> returns the last entry and the shortened slice; on an empty slice the
  index \<open>n - 1\<close> is out of range and the program panics (\<open>None\<close>).\<close>

definition Pop :: "MessageHeap \<Rightarrow> (Message \<times> MessageHeap) option" where
  "Pop mh = (if mh = [] then None else Some (last mh, butlast mh))"

subsection \<open>The heap operations of package container/heap\<close>

text \<open>
  The Go standard library's \<^verbatim>\<open>up\<close>, \<^verbatim>\<open>down\<close>, \<^verbatim>\<open>Init\<close>, \<^verbatim>\<open>Push\<close> and \<^verbatim>\<open>Pop\<close>,
  over the methods above, which they only call at indices of the slice. Indices are
  positions of the slice, so they are \<open>nat\<close>; the parent of \<open>j\<close> is \<open>(j - 1) / 2\<close>,
  which is \<open>0\<close> for \<open>j = 0\<close> in Go (division truncates) as it is here (subtraction
  stops at \<open>0\<close>). \<^verbatim>\<open>up\<close> swaps entry \<open>j\<close> with its parent while it is \<^verbatim>\<open>Less\<close> than
  the parent; \<^verbatim>\<open>down\<close> swaps entry \<open>i\<close> with its smaller child (the right one when it is
  \<^verbatim>\<open>Less\<close> than the left one) while that child is \<^verbatim>\<open>Less\<close> than entry \<open>i\<close>. The
  boolean that \<^verbatim>\<open>down\<close> returns is not used by \<^verbatim>\<open>Init\<close> and \<^verbatim>\<open>Pop\<close>.
\<close>

function up :: "MessageHeap \<Rightarrow> nat \<Rightarrow> MessageHeap" where
  "up h j =
     (let i = (j - 1) div 2 in
      if i = j \<or> \<not> Less h j i then h else up (Swap h i j) i)"
  by pat_completeness auto
termination
  by (relation "measure (\<lambda>(h, j). j)") auto

declare up.simps [simp del]

function down :: "MessageHeap \<Rightarrow> nat \<Rightarrow> nat \<Rightarrow> MessageHeap" where
  "down h i n =
     (let j1 = 2 * i + 1 in
      if j1 \<ge> n then h
      else
        let j = (if j1 + 1 < n \<and> Less h (j1 + 1) j1 then j1 + 1 else j1) in
        if \<not> Less h j i then h else down (Swap h i j) j n)"
  by pat_completeness auto
termination
  by (relation "measure (\<lambda>(h, i, n). n - i)") (auto simp: Let_def)

declare down.simps [simp del]

definition heap_Init :: "MessageHeap \<Rightarrow> MessageHeap" where
  "heap_Init h = fold (\<lambda>i h'. down h' i (Len h)) (rev [0..<Len h div 2]) h"

definition heap_Push :: "MessageHeap \<Rightarrow> Message \<Rightarrow> MessageHeap" where
  "heap_Push h x = (let h' = Push h x in up h' (Len h' - 1))"

text \<open>\<^verbatim>\<open>heap.Pop\<close> swaps the root with the last entry, sifts the new root down
  within the first \<open>n\<close> entries and removes the last entry. On an empty heap
  \<^verbatim>\<open>Swap(0, -1)\<close> panics.\<close>

definition heap_Pop :: "MessageHeap \<Rightarrow> (Message \<times> MessageHeap) option" where
  "heap_Pop h =
     (if Len h = 0 then None
      else let n = Len h - 1 in Pop (down (Swap h 0 n) 0 n))"

text \<open>The heap operations keep the length of the slice; a pop shortens it, which is
  why the loop of the release branch below ends.\<close>

lemma length_Swap: "length (Swap h i j) = length h"
  by (simp add: Swap_def)

lemma length_up: "length (up h j) = length h"
proof (induction h j rule: up.induct)
  case (1 h j)
  show ?case
  proof (cases "(j - 1) div 2 = j \<or> \<not> Less h j ((j - 1) div 2)")
    case True
    then show ?thesis by (subst up.simps) (simp add: Let_def)
  next
    case False
    then have "up h j = up (Swap h ((j - 1) div 2) j) ((j - 1) div 2)"
      by (subst up.simps) (simp add: Let_def)
    with 1 False show ?thesis by (simp add: length_Swap)
  qed
qed

lemma length_down: "length (down h i n) = length h"
proof (induction h i n rule: down.induct)
  case (1 h i n)
  define j1 where "j1 = 2 * i + 1"
  define j where "j = (if j1 + 1 < n \<and> Less h (j1 + 1) j1 then j1 + 1 else j1)"
  show ?case
  proof (cases "n \<le> j1 \<or> \<not> Less h j i")
    case True
    then show ?thesis
      by (subst down.simps) (auto simp: Let_def j1_def j_def)
  next
    case False
    then have step: "down h i n = down (Swap h i j) j n"
      by (subst down.simps) (auto simp: Let_def j1_def j_def)
    from False have "length (down (Swap h i j) j n) = length (Swap h i j)"
      using "1.IH" [of j1 j] by (simp add: j1_def j_def)
    with step show ?thesis by (simp add: length_Swap)
  qed
qed

lemma length_heap_Pop: "heap_Pop h = Some (x, h') \<Longrightarrow> length h' < length h"
  by (auto simp: heap_Pop_def Pop_def Len_def Let_def length_down length_Swap
      split: if_splits)

section \<open>The lock state\<close>

text \<open>
  The channels are modelled by their buffered contents, one queue per process; a send
  appends to the queue (the buffers are taken to have room, as \<^verbatim>\<open>Start\<close> asks of its
  caller). The mutex is the flag \<open>lock\<close>. An abort (a run-time panic or
  \<^verbatim>\<open>log.Fatal\<close>) is the left summand, with the state at the moment of the abort.
  Each operation is modelled as it runs on its own; the interleaving of the goroutines
  is outside the model.
\<close>

record LamportLockState =
  time :: go_int
  proc :: go_int
  seen :: "go_int list"
  chns :: "Message list list"
  reqs :: MessageHeap
  lock :: bool

datatype failure = IndexOutOfRange | LogFatal

type_synonym outcome = "(failure \<times> LamportLockState) + LamportLockState"

definition initState :: "go_int \<Rightarrow> Message list list \<Rightarrow> LamportLockState" where
  "initState p cs =
     (let s = \<lparr>time = 1, proc = p, seen = replicate (length cs) 0, chns = cs,
                reqs = [], lock = False\<rparr>
      in s\<lparr>reqs := heap_Init (reqs s)\<rparr>)"

text \<open>The loop \<^verbatim>\<open>for p, chn := range state.chns { if p != state.proc { chn <- m } }\<close>
  of \<^verbatim>\<open>sendRequestMsg\<close> and \<^verbatim>\<open>sendReleaseMsg\<close>.\<close>

definition send_others :: "Message list list \<Rightarrow> go_int \<Rightarrow> Message \<Rightarrow> Message list list" where
  "send_others cs self m =
     map (\<lambda>(p, chn). if int p \<noteq> sint self then chn @ [m] else chn) (enumerate 0 cs)"

definition sendRequestMsg :: "LamportLockState \<Rightarrow> LamportLockState" where
  "sendRequestMsg state =
     (let s1 = state\<lparr>lock := True\<rparr>;
          s2 = s1\<lparr>time := time s1 + 1\<rparr>;
          m = \<lparr>Type = MessageRequest, Proc = proc s2, Time = time s2\<rparr>;
          s3 = s2\<lparr>chns := send_others (chns s2) (proc s2) m\<rparr>;
          s4 = s3\<lparr>reqs := heap_Push (reqs s3) m\<rparr>
      in s4\<lparr>lock := False\<rparr>)"

text \<open>\<^verbatim>\<open>allProcessesSeen\<close>: the loop over the indices of \<open>seen\<close>, leaving at the first
  other process whose entry is below \<open>t\<close>.\<close>

fun allProcessesSeen_from :: "nat \<Rightarrow> go_int list \<Rightarrow> go_int \<Rightarrow> go_int \<Rightarrow> bool" where
  "allProcessesSeen_from p [] self t = True"
| "allProcessesSeen_from p (x # xs) self t =
     (if int p \<noteq> sint self \<and> sint x < sint t then False
      else allProcessesSeen_from (Suc p) xs self t)"

definition allProcessesSeen :: "LamportLockState \<Rightarrow> go_int \<Rightarrow> bool" where
  "allProcessesSeen state t = allProcessesSeen_from 0 (seen state) (proc state) t"

text \<open>\<^verbatim>\<open>haveLock\<close> takes the mutex, looks at the entry at index \<open>0\<close> of the heap and
  releases the mutex on each way out; it returns its answer and the state it leaves.\<close>

definition haveLock :: "LamportLockState \<Rightarrow> bool \<times> LamportLockState" where
  "haveLock state =
     (let s1 = state\<lparr>lock := True\<rparr> in
      if Len (reqs s1) > 0 then
        (let m = reqs s1 ! 0 in
         if Proc m = proc s1 then
           (let allSeen = allProcessesSeen s1 (Time m) in
            if allSeen then (True, s1\<lparr>lock := False\<rparr>)
            else (False, s1\<lparr>lock := False\<rparr>))
         else (False, s1\<lparr>lock := False\<rparr>))
      else (False, s1\<lparr>lock := False\<rparr>))"

text \<open>\<^verbatim>\<open>sendReleaseMsg\<close> asks \<^verbatim>\<open>haveLock\<close> before it takes the mutex itself;
  \<^verbatim>\<open>log.Fatal\<close> ends the program there.\<close>

definition sendReleaseMsg :: "LamportLockState \<Rightarrow> outcome" where
  "sendReleaseMsg state =
     (case haveLock state of (held, s0) \<Rightarrow>
        if \<not> held then Inl (LogFatal, s0)
        else
          let s1 = s0\<lparr>lock := True\<rparr>;
              s2 = s1\<lparr>time := time s1 + 1\<rparr>;
              m = \<lparr>Type = MessageRelease, Proc = proc s2, Time = time s2\<rparr>;
              s3 = s2\<lparr>chns := send_others (chns s2) (proc s2) m\<rparr>
          in (case heap_Pop (reqs s3) of
                None \<Rightarrow> Inl (IndexOutOfRange, s3)
              | Some (x, h) \<Rightarrow> Inr (s3\<lparr>reqs := h, lock := False\<rparr>)))"

text \<open>\<^verbatim>\<open>sendAckMsg\<close> advances the clock first; the send panics when \<open>target\<close> is not an
  index of \<open>chns\<close>.\<close>

definition sendAckMsg :: "LamportLockState \<Rightarrow> go_int \<Rightarrow> outcome" where
  "sendAckMsg state target =
     (let s1 = state\<lparr>time := time state + 1\<rparr>;
          r = \<lparr>Type = MessageAck, Proc = proc s1, Time = time s1\<rparr>
      in if 0 \<le> sint target \<and> nat (sint target) < length (chns s1)
         then Inr (s1\<lparr>chns := (chns s1)[nat (sint target) :=
                                   chns s1 ! nat (sint target) @ [r]]\<rparr>)
         else Inl (IndexOutOfRange, s1))"

text \<open>The first loop of the release branch: pop until the heap is empty, keeping the
  entries of the other processes in the order they are popped.\<close>

function drain :: "MessageHeap \<Rightarrow> go_int \<Rightarrow> Message list \<Rightarrow> Message list \<times> MessageHeap" where
  "drain h p kept =
     (if Len h > 0 then
        (case heap_Pop h of
           None \<Rightarrow> (kept, h)
         | Some (req, h') \<Rightarrow> drain h' p (if Proc req \<noteq> p then kept @ [req] else kept))
      else (kept, h))"
  by pat_completeness auto
termination
proof (relation "measure (\<lambda>(h, p, kept). length h)")
  show "wf (measure (\<lambda>(h, p, kept). length h))" by simp
next
  fix h :: MessageHeap and p :: go_int and kept :: "Message list"
    and x2 :: "Message \<times> MessageHeap" and req h'
  assume "heap_Pop h = Some x2" and "(req, h') = x2"
  then have "length h' < length h"
    using length_heap_Pop [of h req h'] by simp
  then show "((h', p, if Proc req \<noteq> p then kept @ [req] else kept), h, p, kept)
      \<in> measure (\<lambda>(h, p, kept). length h)"
    by simp
qed

declare drain.simps [simp del]

definition processMessage :: "LamportLockState \<Rightarrow> Message \<Rightarrow> outcome" where
  "processMessage state m =
     (if \<not> (0 \<le> sint (Proc m) \<and> nat (sint (Proc m)) < length (seen state))
      then Inl (IndexOutOfRange, state)
      else
        let s1 = state\<lparr>seen := (seen state)[nat (sint (Proc m)) := Time m]\<rparr>;
            s2 = (if sint (Time m) > sint (time s1) then s1\<lparr>time := Time m\<rparr> else s1)
        in
          if Type m = MessageRequest then
            sendAckMsg (s2\<lparr>reqs := heap_Push (reqs s2) m\<rparr>) (Proc m)
          else if Type m = MessageRelease then
            (case drain (reqs s2) (Proc m) [] of
               (kept, h) \<Rightarrow> Inr (s2\<lparr>reqs := foldl heap_Push h kept\<rparr>))
          else Inr s2)"

text \<open>Processing a sequence of inbound messages, one after the other, stopping at an
  abort.\<close>

fun processAll :: "LamportLockState \<Rightarrow> Message list \<Rightarrow> outcome" where
  "processAll s [] = Inr s"
| "processAll s (m # ms) =
     (case processMessage s m of Inl e \<Rightarrow> Inl e | Inr s' \<Rightarrow> processAll s' ms)"


text \<open>The operations on the state of one process, and a run of them, which stops at
  the first abort.\<close>

datatype operation = SendRequest | SendRelease | Process Message

fun perform :: "LamportLockState \<Rightarrow> operation \<Rightarrow> outcome" where
  "perform s SendRequest = Inr (sendRequestMsg s)"
| "perform s SendRelease = sendReleaseMsg s"
| "perform s (Process m) = processMessage s m"

fun run :: "LamportLockState \<Rightarrow> operation list \<Rightarrow> outcome" where
  "run s [] = Inr s"
| "run s (x # xs) = (case perform s x of Inl e \<Rightarrow> Inl e | Inr s' \<Rightarrow> run s' xs)"






section \<open>The heap operations keep the entries\<close>

text \<open>Sifting only swaps entries, so the heap operations permute the slice; a pop
  removes the entry at index \<open>0\<close>.\<close>

lemma mset_Swap: "i < length h \<Longrightarrow> j < length h \<Longrightarrow> mset (Swap h i j) = mset h"
  unfolding Swap_def by (rule mset_swap)

lemma Swap_nth_other: "k \<noteq> i \<Longrightarrow> k \<noteq> j \<Longrightarrow> Swap h i j ! k = h ! k"
  by (simp add: Swap_def)

lemma mset_up: "j < length h \<Longrightarrow> mset (up h j) = mset h"
proof (induction h j rule: up.induct)
  case (1 h j)
  let ?i = "(j - 1) div 2"
  show ?case
  proof (cases "?i = j \<or> \<not> Less h j ?i")
    case True
    then show ?thesis by (subst up.simps) (simp add: Let_def)
  next
    case False
    then have step: "up h j = up (Swap h ?i j) ?i"
      by (subst up.simps) (simp add: Let_def)
    have i: "?i < length h" using "1.prems" by simp
    from False i have "mset (up (Swap h ?i j) ?i) = mset (Swap h ?i j)"
      using "1.IH" [of ?i] by (simp add: length_Swap)
    with step i "1.prems" show ?thesis by (simp add: mset_Swap)
  qed
qed

lemma down_cases:
  obtains (stop) "down h i n = h"
  | (step) j where "i < j" "j < n" "down h i n = down (Swap h i j) j n"
    "j = (if 2 * i + 2 < n \<and> Less h (2 * i + 2) (2 * i + 1) then 2 * i + 2 else 2 * i + 1)"
    "Less h j i"
proof -
  define j1 where "j1 = 2 * i + 1"
  define j where "j = (if j1 + 1 < n \<and> Less h (j1 + 1) j1 then j1 + 1 else j1)"
  show thesis
  proof (cases "n \<le> j1 \<or> \<not> Less h j i")
    case True
    then have "down h i n = h"
      by (subst down.simps) (auto simp: Let_def j1_def j_def)
    then show thesis by (rule stop)
  next
    case False
    from False have "i < j" "j < n" by (auto simp: j1_def j_def)
    moreover from False have "down h i n = down (Swap h i j) j n"
      by (subst down.simps) (auto simp: Let_def j1_def j_def)
    moreover have "j = (if 2 * i + 2 < n \<and> Less h (2 * i + 2) (2 * i + 1) then 2 * i + 2 else 2 * i + 1)"
      by (simp add: j_def j1_def)
    moreover from False have "Less h j i" by simp
    ultimately show thesis by (rule step)
  qed
qed

lemma mset_down: "n \<le> length h \<Longrightarrow> mset (down h i n) = mset h"
proof (induction "n - i" arbitrary: h i rule: less_induct)
  case less
  show ?case
  proof (cases rule: down_cases [of h i n])
    case stop
    then show ?thesis by simp
  next
    case (step j)
    with less.prems have "mset (down (Swap h i j) j n) = mset (Swap h i j)"
      by (intro less.hyps) (auto simp: length_Swap)
    with step less.prems show ?thesis by (simp add: mset_Swap)
  qed
qed

lemma down_nth_ge: "n \<le> k \<Longrightarrow> down h i n ! k = h ! k"
proof (induction "n - i" arbitrary: h i rule: less_induct)
  case less
  show ?case
  proof (cases rule: down_cases [of h i n])
    case stop
    then show ?thesis by simp
  next
    case (step j)
    with less.prems have "down (Swap h i j) j n ! k = Swap h i j ! k"
      by (intro less.hyps) auto
    with step less.prems show ?thesis by (simp add: Swap_nth_other)
  qed
qed

lemma mset_heap_Push: "mset (heap_Push h x) = add_mset x (mset h)"
  by (simp add: heap_Push_def Push_def Len_def Let_def mset_up)

lemma mset_foldl_heap_Push: "mset (foldl heap_Push h xs) = mset h + mset xs"
  by (induction xs arbitrary: h) (simp_all add: mset_heap_Push)

lemma heap_Pop_nonempty:
  assumes "h \<noteq> []"
  obtains h' where "heap_Pop h = Some (h ! 0, h')" "mset h' = mset h - {#h ! 0#}"
    "length h' = length h - 1"
proof -
  define n where "n = length h - 1"
  define d where "d = down (Swap h 0 n) 0 n"
  from assms have n: "n < length h" by (simp add: n_def)
  have len: "length d = length h" by (simp add: d_def length_down length_Swap)
  with assms have ne: "d \<noteq> []" by auto
  have pop: "heap_Pop h = Some (last d, butlast d)"
    using assms ne by (simp add: heap_Pop_def Len_def Pop_def Let_def n_def d_def)
  have "last d = d ! n" using ne len by (simp add: last_conv_nth n_def)
  also have "\<dots> = Swap h 0 n ! n" by (simp add: d_def down_nth_ge)
  also have "\<dots> = h ! 0" using n by (simp add: Swap_def)
  finally have last: "last d = h ! 0" .
  have "mset d = mset h" using n assms by (simp add: d_def mset_down length_Swap mset_Swap)
  moreover have "mset d = add_mset (last d) (mset (butlast d))"
    using ne by (metis append_butlast_last_id mset.simps(2) mset_append union_mset_add_mset_right add.right_neutral mset.simps(1))
  ultimately have "add_mset (h ! 0) (mset (butlast d)) = mset h" using last by simp
  then have "mset h - {#h ! 0#} = add_mset (h ! 0) (mset (butlast d)) - {#h ! 0#}" by simp
  then have "mset (butlast d) = mset h - {#h ! 0#}" by simp
  moreover have "length (butlast d) = length h - 1" using len by simp
  ultimately show thesis using pop last that by simp
qed

lemma drain_result:
  "drain h p kept = (kept', h') \<Longrightarrow>
     h' = [] \<and> mset kept' = mset kept + filter_mset (\<lambda>r. Proc r \<noteq> p) (mset h)"
proof (induction "length h" arbitrary: h kept rule: less_induct)
  case less
  show ?case
  proof (cases "h = []")
    case True
    with less.prems show ?thesis by (simp add: drain.simps Len_def)
  next
    case False
    then obtain h1 where pop: "heap_Pop h = Some (h ! 0, h1)"
      and ms: "mset h1 = mset h - {#h ! 0#}" and len: "length h1 = length h - 1"
      by (rule heap_Pop_nonempty)
    let ?kept1 = "if Proc (h ! 0) \<noteq> p then kept @ [h ! 0] else kept"
    from False pop have "drain h p kept = drain h1 p ?kept1"
      by (subst drain.simps) (simp add: Len_def)
    with less.prems have d: "drain h1 p ?kept1 = (kept', h')" by simp
    from False len have "length h1 < length h" by (cases h) auto
    from less.hyps [OF this d]
    have h': "h' = []"
      and k: "mset kept' = mset ?kept1 + filter_mset (\<lambda>r. Proc r \<noteq> p) (mset h1)"
      by simp_all
    from False have "h ! 0 \<in># mset h" by (cases h) auto
    then have "mset h = add_mset (h ! 0) (mset h1)" using ms by simp
    then have "filter_mset (\<lambda>r. Proc r \<noteq> p) (mset h) =
        (if Proc (h ! 0) \<noteq> p then {#h ! 0#} else {#}) + filter_mset (\<lambda>r. Proc r \<noteq> p) (mset h1)"
      by simp
    with k h' show ?thesis by simp
  qed
qed

section \<open>The comparison and the order of the pops\<close>

text \<open>What \<^verbatim>\<open>Less\<close> computes on a pair of messages: a smaller time, or a smaller
  origin process whatever the times are.\<close>

lemma Less_pair:
  "Less [a, b] 0 1 \<longleftrightarrow> sint (Time a) < sint (Time b) \<or> sint (Proc a) < sint (Proc b)"
  by (simp add: Less_def)

text \<open>
  Claim C1 reads \<^verbatim>\<open>Less\<close> as the strict lexicographic order on time, then origin
  process, which is asymmetric. At the messages \<open>a\<close> (time 5, process 0) and \<open>b\<close>
  (time 3, process 1), \<^verbatim>\<open>Less\<close> reports \<open>a\<close> before \<open>b\<close>, although the time of \<open>a\<close> is
  larger, and it reports \<open>b\<close> before \<open>a\<close> as well: the comparison of the processes is
  reached whenever the first time is not smaller, not only when the times are equal.
\<close>

theorem Less_larger_time_smaller_proc:
  "Less [\<lparr>Type = MessageRequest, Proc = 0, Time = 5\<rparr>,
         \<lparr>Type = MessageRequest, Proc = 1, Time = 3\<rparr>] 0 1
   \<and> Less [\<lparr>Type = MessageRequest, Proc = 0, Time = 5\<rparr>,
           \<lparr>Type = MessageRequest, Proc = 1, Time = 3\<rparr>] 1 0"
  by (simp add: Less_def)

text \<open>
  Claim C2 expects the requests of process 0 (time 5), process 1 (time 3) and process 2
  (time 3) to be popped in the order process 1, process 2, process 0, whatever the
  order of the pushes. Pushed in the order process 0, process 1, process 2 onto the
  heap of a new state, they are popped in the order process 1, process 0, process 2.
\<close>

theorem pops_after_pushing_5_0_first:
  "foldl heap_Push (heap_Init [])
     [\<lparr>Type = MessageRequest, Proc = 0, Time = 5\<rparr>,
      \<lparr>Type = MessageRequest, Proc = 1, Time = 3\<rparr>,
      \<lparr>Type = MessageRequest, Proc = 2, Time = 3\<rparr>]
   = [\<lparr>Type = MessageRequest, Proc = 1, Time = 3\<rparr>,
      \<lparr>Type = MessageRequest, Proc = 0, Time = 5\<rparr>,
      \<lparr>Type = MessageRequest, Proc = 2, Time = 3\<rparr>]
   \<and> heap_Pop [\<lparr>Type = MessageRequest, Proc = 1, Time = 3\<rparr>,
                \<lparr>Type = MessageRequest, Proc = 0, Time = 5\<rparr>,
                \<lparr>Type = MessageRequest, Proc = 2, Time = 3\<rparr>]
       = Some (\<lparr>Type = MessageRequest, Proc = 1, Time = 3\<rparr>,
               [\<lparr>Type = MessageRequest, Proc = 0, Time = 5\<rparr>,
                \<lparr>Type = MessageRequest, Proc = 2, Time = 3\<rparr>])
   \<and> heap_Pop [\<lparr>Type = MessageRequest, Proc = 0, Time = 5\<rparr>,
                \<lparr>Type = MessageRequest, Proc = 2, Time = 3\<rparr>]
       = Some (\<lparr>Type = MessageRequest, Proc = 0, Time = 5\<rparr>,
               [\<lparr>Type = MessageRequest, Proc = 2, Time = 3\<rparr>])
   \<and> heap_Pop [\<lparr>Type = MessageRequest, Proc = 2, Time = 3\<rparr>]
       = Some (\<lparr>Type = MessageRequest, Proc = 2, Time = 3\<rparr>, [])"
  by code_simp

section \<open>The lock-held predicate\<close>

lemma allProcessesSeen_from_iff:
  "allProcessesSeen_from k xs self t \<longleftrightarrow>
     (\<forall>i<length xs. int (k + i) \<noteq> sint self \<longrightarrow> sint t \<le> sint (xs ! i))"
proof (induction xs arbitrary: k)
  case Nil
  then show ?case by simp
next
  case (Cons x xs)
  show ?case
    by (auto simp: Cons.IH All_less_Suc2 not_less algebra_simps)
qed

lemma allProcessesSeen_iff:
  "allProcessesSeen s t \<longleftrightarrow>
     (\<forall>p<length (seen s). int p \<noteq> sint (proc s) \<longrightarrow> sint t \<le> sint (seen s ! p))"
  by (simp add: allProcessesSeen_def allProcessesSeen_from_iff)

lemma snd_haveLock: "snd (haveLock s) = s\<lparr>lock := False\<rparr>"
  by (simp add: haveLock_def Let_def)

lemma fst_haveLock:
  "fst (haveLock s) \<longleftrightarrow>
     reqs s \<noteq> [] \<and> Proc (reqs s ! 0) = proc s \<and> allProcessesSeen s (Time (reqs s ! 0))"
  by (simp add: haveLock_def Let_def Len_def allProcessesSeen_def)

text \<open>
  Claim C3: \<^verbatim>\<open>haveLock\<close> answers false on an empty queue and when the entry at the
  front (index \<open>0\<close>) is of another process; when the front entry is the caller's own,
  it answers true exactly when every other process's entry of \<open>seen\<close> is at least
  the front entry's time. The state it leaves is the state it was given, with the mutex
  released: no field is written.
\<close>

theorem haveLock_front_and_seen:
  "(reqs s = [] \<longrightarrow> \<not> fst (haveLock s)) \<and>
   (reqs s \<noteq> [] \<and> Proc (reqs s ! 0) \<noteq> proc s \<longrightarrow> \<not> fst (haveLock s)) \<and>
   (reqs s \<noteq> [] \<and> Proc (reqs s ! 0) = proc s \<longrightarrow>
      fst (haveLock s) =
        (\<forall>p<length (seen s). int p \<noteq> sint (proc s) \<longrightarrow>
           sint (Time (reqs s ! 0)) \<le> sint (seen s ! p))) \<and>
   snd (haveLock s) = s\<lparr>lock := False\<rparr> \<and>
   (\<not> lock s \<longrightarrow> snd (haveLock s) = s)"
proof -
  have "\<not> lock s \<Longrightarrow> s\<lparr>lock := False\<rparr> = s" by simp
  then show ?thesis
    by (simp add: fst_haveLock snd_haveLock allProcessesSeen_iff)
qed

theorem haveLock_front_and_seen_witness:
  "\<not> fst (haveLock \<lparr>time = 1, proc = 0, seen = [0, 0], chns = [[], []], reqs = [], lock = False\<rparr>)
   \<and> \<not> fst (haveLock \<lparr>time = 3, proc = 0, seen = [0, 2], chns = [[], []],
        reqs = [\<lparr>Type = MessageRequest, Proc = 1, Time = 2\<rparr>], lock = False\<rparr>)
   \<and> fst (haveLock \<lparr>time = 3, proc = 0, seen = [0, 3], chns = [[], []],
        reqs = [\<lparr>Type = MessageRequest, Proc = 0, Time = 2\<rparr>], lock = False\<rparr>)
   \<and> \<not> fst (haveLock \<lparr>time = 3, proc = 0, seen = [0, 1], chns = [[], []],
        reqs = [\<lparr>Type = MessageRequest, Proc = 0, Time = 2\<rparr>], lock = False\<rparr>)
   \<and> snd (haveLock \<lparr>time = 3, proc = 0, seen = [0, 3], chns = [[], []],
        reqs = [\<lparr>Type = MessageRequest, Proc = 0, Time = 2\<rparr>], lock = False\<rparr>)
       = \<lparr>time = 3, proc = 0, seen = [0, 3], chns = [[], []],
        reqs = [\<lparr>Type = MessageRequest, Proc = 0, Time = 2\<rparr>], lock = False\<rparr>"
  using
    haveLock_front_and_seen [of "\<lparr>time = 1, proc = 0, seen = [0, 0], chns = [[], []], reqs = [], lock = False\<rparr>"]
    haveLock_front_and_seen [of "\<lparr>time = 3, proc = 0, seen = [0, 2], chns = [[], []],
        reqs = [\<lparr>Type = MessageRequest, Proc = 1, Time = 2\<rparr>], lock = False\<rparr>"]
    haveLock_front_and_seen [of "\<lparr>time = 3, proc = 0, seen = [0, 3], chns = [[], []],
        reqs = [\<lparr>Type = MessageRequest, Proc = 0, Time = 2\<rparr>], lock = False\<rparr>"]
    haveLock_front_and_seen [of "\<lparr>time = 3, proc = 0, seen = [0, 1], chns = [[], []],
        reqs = [\<lparr>Type = MessageRequest, Proc = 0, Time = 2\<rparr>], lock = False\<rparr>"]
  by (simp add: All_less_Suc2)

section \<open>Processing one message\<close>

lemma processMessage_out_of_range:
  "\<not> (0 \<le> sint (Proc m) \<and> nat (sint (Proc m)) < length (seen s)) \<Longrightarrow>
     processMessage s m = Inl (IndexOutOfRange, s)"
  by (simp add: processMessage_def)

lemma processMessage_Request:
  assumes "0 \<le> sint (Proc m)" "nat (sint (Proc m)) < length (seen s)"
    and "nat (sint (Proc m)) < length (chns s)"
    and "Type m = MessageRequest"
  shows "processMessage s m =
     Inr (s\<lparr>seen := (seen s)[nat (sint (Proc m)) := Time m],
            time := (if sint (time s) < sint (Time m) then Time m else time s) + 1,
            reqs := heap_Push (reqs s) m,
            chns := (chns s)[nat (sint (Proc m)) := chns s ! nat (sint (Proc m)) @
              [\<lparr>Type = MessageAck, Proc = proc s,
                Time = (if sint (time s) < sint (Time m) then Time m else time s) + 1\<rparr>]]\<rparr>)"
  using assms by (simp add: processMessage_def sendAckMsg_def Let_def)

lemma processMessage_Request_no_channel:
  assumes "0 \<le> sint (Proc m)" "nat (sint (Proc m)) < length (seen s)"
    and "\<not> nat (sint (Proc m)) < length (chns s)"
    and "Type m = MessageRequest"
  shows "\<exists>s'. processMessage s m = Inl (IndexOutOfRange, s')"
  using assms by (simp add: processMessage_def sendAckMsg_def Let_def)

lemma processMessage_Release:
  assumes "0 \<le> sint (Proc m)" "nat (sint (Proc m)) < length (seen s)"
    and "Type m = MessageRelease"
  shows "\<exists>h. processMessage s m =
     Inr (s\<lparr>seen := (seen s)[nat (sint (Proc m)) := Time m],
            time := (if sint (time s) < sint (Time m) then Time m else time s),
            reqs := h\<rparr>)
     \<and> mset h = filter_mset (\<lambda>r. Proc r \<noteq> Proc m) (mset (reqs s))"
proof -
  obtain kept h0 where d: "drain (reqs s) (Proc m) [] = (kept, h0)"
    by (cases "drain (reqs s) (Proc m) []")
  from drain_result [OF d]
  have "mset (foldl heap_Push h0 kept) = filter_mset (\<lambda>r. Proc r \<noteq> Proc m) (mset (reqs s))"
    by (simp add: mset_foldl_heap_Push)
  moreover have "processMessage s m =
     Inr (s\<lparr>seen := (seen s)[nat (sint (Proc m)) := Time m],
            time := (if sint (time s) < sint (Time m) then Time m else time s),
            reqs := foldl heap_Push h0 kept\<rparr>)"
    using assms d
    by (simp add: processMessage_def Let_def MessageRequest_def MessageRelease_def)
  ultimately show ?thesis by blast
qed

lemma processMessage_other:
  assumes "0 \<le> sint (Proc m)" "nat (sint (Proc m)) < length (seen s)"
    and "Type m \<noteq> MessageRequest" "Type m \<noteq> MessageRelease"
  shows "processMessage s m =
     Inr (s\<lparr>seen := (seen s)[nat (sint (Proc m)) := Time m],
            time := (if sint (time s) < sint (Time m) then Time m else time s)\<rparr>)"
  using assms by (simp add: processMessage_def Let_def)

text \<open>
  Claim C4: for a message \<open>m\<close> whose origin is an index of \<open>seen\<close> (and, for a request,
  of \<open>chns\<close>), \<^verbatim>\<open>processMessage\<close> returns with \<open>seen\<close> at the origin set to the
  time of \<open>m\<close>. With \<open>c\<close> the larger of the clock and the time of \<open>m\<close> (as signed
  values): for a request the clock becomes \<open>c + 1\<close> (the one increment, made by
  \<^verbatim>\<open>sendAckMsg\<close>) and an acknowledgement carrying \<open>c + 1\<close> is appended to the origin's
  channel; for every other message the clock becomes \<open>c\<close>, with nothing added, and no
  channel changes.
\<close>

theorem processMessage_seen_and_clock:
  assumes "0 \<le> sint (Proc m)" and "nat (sint (Proc m)) < length (seen s)"
    and "Type m = MessageRequest \<longrightarrow> nat (sint (Proc m)) < length (chns s)"
  shows "\<exists>s' c. processMessage s m = Inr s' \<and>
     seen s' = (seen s)[nat (sint (Proc m)) := Time m] \<and>
     sint c = max (sint (time s)) (sint (Time m)) \<and>
     (if Type m = MessageRequest
      then time s' = c + 1 \<and>
           chns s' = (chns s)[nat (sint (Proc m)) := chns s ! nat (sint (Proc m)) @
             [\<lparr>Type = MessageAck, Proc = proc s, Time = c + 1\<rparr>]]
      else time s' = c \<and> chns s' = chns s)"
proof -
  define c where "c = (if sint (time s) < sint (Time m) then Time m else time s)"
  have c: "sint c = max (sint (time s)) (sint (Time m))"
    by (simp add: c_def)
  consider (request) "Type m = MessageRequest" | (release) "Type m = MessageRelease"
    | (other) "Type m \<noteq> MessageRequest" "Type m \<noteq> MessageRelease"
    by blast
  then show ?thesis
  proof cases
    case request
    with assms show ?thesis
      using c by (simp add: processMessage_Request c_def [symmetric])
  next
    case release
    then have nr: "Type m \<noteq> MessageRequest"
      by (simp add: MessageRequest_def MessageRelease_def)
    from processMessage_Release [OF assms(1,2) release]
    obtain h where "processMessage s m =
       Inr (s\<lparr>seen := (seen s)[nat (sint (Proc m)) := Time m], time := c, reqs := h\<rparr>)"
      by (auto simp: c_def)
    with nr c show ?thesis by simp
  next
    case other
    with assms c show ?thesis
      by (simp add: processMessage_other c_def [symmetric])
  qed
qed

theorem processMessage_seen_and_clock_witness:
  "\<exists>s'. processMessage (initState 0 [[], []]) \<lparr>Type = MessageRequest, Proc = 1, Time = 5\<rparr> = Inr s'
     \<and> seen s' = [0, 5] \<and> time s' = 6
     \<and> chns s' = [[], [\<lparr>Type = MessageAck, Proc = 0, Time = 6\<rparr>]]"
proof -
  let ?s = "initState 0 [[], []]"
  let ?m = "\<lparr>Type = MessageRequest, Proc = 1, Time = 5\<rparr>"
  have s: "seen ?s = [0, 0]" "chns ?s = [[], []]" "time ?s = 1" "proc ?s = 0"
    by (simp_all add: initState_def Let_def heap_Init_def Len_def)
  have "0 \<le> sint (Proc ?m)" "nat (sint (Proc ?m)) < length (seen ?s)"
    "Type ?m = MessageRequest \<longrightarrow> nat (sint (Proc ?m)) < length (chns ?s)"
    by (simp_all add: s)
  from processMessage_seen_and_clock [OF this]
  obtain s' c where r: "processMessage ?s ?m = Inr s'"
    and "seen s' = (seen ?s)[nat (sint (Proc ?m)) := Time ?m]"
    and "sint c = max (sint (time ?s)) (sint (Time ?m))"
    and "time s' = c + 1"
    and "chns s' = (chns ?s)[nat (sint (Proc ?m)) := chns ?s ! nat (sint (Proc ?m)) @
             [\<lparr>Type = MessageAck, Proc = proc ?s, Time = c + 1\<rparr>]]"
    by auto
  moreover from this have "sint c = sint (5 :: go_int)" by (simp add: s)
  then have "c = 5" by (rule signed_word_eqI)
  ultimately show ?thesis by (simp add: s)
qed

text \<open>
  Claim C6: processing a release \<open>m\<close> leaves in the queue, as a multiset, exactly the
  former entries whose origin differs from the origin of \<open>m\<close>.
\<close>

theorem processMessage_Release_keeps_others:
  assumes "Type m = MessageRelease"
    and "0 \<le> sint (Proc m)" and "nat (sint (Proc m)) < length (seen s)"
  shows "\<exists>s'. processMessage s m = Inr s' \<and>
     mset (reqs s') = filter_mset (\<lambda>r. Proc r \<noteq> Proc m) (mset (reqs s))"
  using processMessage_Release [OF assms(2,3,1)] by auto

theorem processMessage_Release_keeps_others_witness:
  "\<exists>s'. processMessage
       \<lparr>time = 6, proc = 0, seen = [0, 3, 3], chns = [[], [], []],
        reqs = [\<lparr>Type = MessageRequest, Proc = 1, Time = 3\<rparr>,
                \<lparr>Type = MessageRequest, Proc = 0, Time = 5\<rparr>,
                \<lparr>Type = MessageRequest, Proc = 2, Time = 3\<rparr>], lock = False\<rparr>
       \<lparr>Type = MessageRelease, Proc = 1, Time = 7\<rparr> = Inr s'
     \<and> mset (reqs s') = {#\<lparr>Type = MessageRequest, Proc = 0, Time = 5\<rparr>,
                           \<lparr>Type = MessageRequest, Proc = 2, Time = 3\<rparr>#}"
  using processMessage_Release_keeps_others [of "\<lparr>Type = MessageRelease, Proc = 1, Time = 7\<rparr>"
       "\<lparr>time = 6, proc = 0, seen = [0, 3, 3], chns = [[], [], []],
        reqs = [\<lparr>Type = MessageRequest, Proc = 1, Time = 3\<rparr>,
                \<lparr>Type = MessageRequest, Proc = 0, Time = 5\<rparr>,
                \<lparr>Type = MessageRequest, Proc = 2, Time = 3\<rparr>], lock = False\<rparr>"]
  by simp

section \<open>Sequences of inbound messages\<close>

lemma processMessage_seen_step:
  assumes "0 \<le> sint (Proc m)" "nat (sint (Proc m)) < length (seen s)"
    and "length (chns s) = length (seen s)"
  shows "\<exists>s'. processMessage s m = Inr s' \<and>
     seen s' = (seen s)[nat (sint (Proc m)) := Time m] \<and>
     length (chns s') = length (chns s)"
proof -
  consider (request) "Type m = MessageRequest" | (release) "Type m = MessageRelease"
    | (other) "Type m \<noteq> MessageRequest" "Type m \<noteq> MessageRelease"
    by blast
  then show ?thesis
  proof cases
    case request
    with assms show ?thesis by (simp add: processMessage_Request)
  next
    case release
    from processMessage_Release [OF assms(1,2) release] show ?thesis by auto
  next
    case other
    with assms show ?thesis by (simp add: processMessage_other)
  qed
qed

lemma processAll_seen:
  assumes "\<forall>m\<in>set ms. 0 \<le> sint (Proc m) \<and> nat (sint (Proc m)) < length (seen s)"
    and "length (chns s) = length (seen s)"
  shows "\<exists>s'. processAll s ms = Inr s' \<and>
     seen s' ! q =
       (if filter (\<lambda>m. nat (sint (Proc m)) = q) ms = [] then seen s ! q
        else Time (last (filter (\<lambda>m. nat (sint (Proc m)) = q) ms)))"
  using assms
proof (induction ms arbitrary: s)
  case Nil
  then show ?case by simp
next
  case (Cons m ms)
  from Cons.prems obtain s1 where s1: "processMessage s m = Inr s1"
    and seen1: "seen s1 = (seen s)[nat (sint (Proc m)) := Time m]"
    and len1: "length (chns s1) = length (chns s)"
    using processMessage_seen_step [of m s] by auto
  from Cons.prems seen1 len1
  have "\<forall>m\<in>set ms. 0 \<le> sint (Proc m) \<and> nat (sint (Proc m)) < length (seen s1)"
    and "length (chns s1) = length (seen s1)"
    by simp_all
  from Cons.IH [OF this] obtain s' where s': "processAll s1 ms = Inr s'"
    and seen': "seen s' ! q =
       (if filter (\<lambda>m. nat (sint (Proc m)) = q) ms = [] then seen s1 ! q
        else Time (last (filter (\<lambda>m. nat (sint (Proc m)) = q) ms)))"
    by blast
  from s1 s' have "processAll s (m # ms) = Inr s'" by simp
  moreover from Cons.prems have "nat (sint (Proc m)) < length (seen s)" by simp
  then have "seen s' ! q =
       (if filter (\<lambda>m. nat (sint (Proc m)) = q) (m # ms) = [] then seen s ! q
        else Time (last (filter (\<lambda>m. nat (sint (Proc m)) = q) (m # ms))))"
    using seen' seen1 by auto
  ultimately show ?case by blast
qed

lemma sorted_last_Max:
  fixes xs :: "int list"
  shows "sorted xs \<Longrightarrow> xs \<noteq> [] \<Longrightarrow> last xs = Max (set xs)"
proof (induction xs)
  case Nil
  then show ?case by simp
next
  case (Cons x xs)
  show ?case
  proof (cases "xs = []")
    case True
    then show ?thesis by simp
  next
    case False
    with Cons have "last xs = Max (set xs)" by simp
    moreover from Cons.prems False have "x \<le> last xs"
      by simp
    ultimately show ?thesis using False by simp
  qed
qed

text \<open>
  Claim C5, as amended: after any sequence of messages whose origins are indices of
  \<open>seen\<close>, processed from a new state, the entry of \<open>seen\<close> for process \<open>q\<close> is the time
  of the last message received from \<open>q\<close>, and \<open>0\<close> when there is none; it is the highest
  time received from \<open>q\<close> when those times arrive in non-decreasing order.
\<close>

theorem seen_is_time_of_last_message:
  assumes "\<forall>m\<in>set ms. 0 \<le> sint (Proc m) \<and> nat (sint (Proc m)) < length cs"
    and "q < length cs"
  shows "\<exists>s'. processAll (initState p cs) ms = Inr s' \<and>
     seen s' ! q =
       (if filter (\<lambda>m. nat (sint (Proc m)) = q) ms = [] then 0
        else Time (last (filter (\<lambda>m. nat (sint (Proc m)) = q) ms))) \<and>
     (filter (\<lambda>m. nat (sint (Proc m)) = q) ms \<noteq> [] \<and>
      sorted (map (\<lambda>m. sint (Time m)) (filter (\<lambda>m. nat (sint (Proc m)) = q) ms)) \<longrightarrow>
        sint (seen s' ! q) =
          Max (set (map (\<lambda>m. sint (Time m)) (filter (\<lambda>m. nat (sint (Proc m)) = q) ms))))"
proof -
  let ?s = "initState p cs"
  let ?from = "filter (\<lambda>m. nat (sint (Proc m)) = q) ms"
  have init: "seen ?s = replicate (length cs) 0" "chns ?s = cs"
    by (simp_all add: initState_def Let_def)
  with assms(1) have "\<forall>m\<in>set ms. 0 \<le> sint (Proc m) \<and> nat (sint (Proc m)) < length (seen ?s)"
    and "length (chns ?s) = length (seen ?s)"
    by simp_all
  from processAll_seen [OF this, of q] obtain s' where run: "processAll ?s ms = Inr s'"
    and seen': "seen s' ! q = (if ?from = [] then seen ?s ! q else Time (last ?from))"
    by blast
  from seen' init assms(2)
  have last: "seen s' ! q = (if ?from = [] then 0 else Time (last ?from))"
    by simp
  have "sint (seen s' ! q) = Max (set (map (\<lambda>m. sint (Time m)) ?from))"
    if "?from \<noteq> []" and "sorted (map (\<lambda>m. sint (Time m)) ?from)"
  proof -
    from that have "last (map (\<lambda>m. sint (Time m)) ?from) = Max (set (map (\<lambda>m. sint (Time m)) ?from))"
      by (intro sorted_last_Max) simp_all
    with that(1) last show ?thesis by (simp add: last_map)
  qed
  with run last show ?thesis by blast
qed

theorem seen_is_time_of_last_message_witness:
  "\<exists>s'. processAll (initState 0 [[], []])
       [\<lparr>Type = MessageRequest, Proc = 1, Time = 2\<rparr>,
        \<lparr>Type = MessageRelease, Proc = 1, Time = 4\<rparr>] = Inr s'
     \<and> seen s' ! 1 = 4 \<and> sint (seen s' ! 1) = Max {2, 4}
     \<and> seen s' ! 0 = 0"
  using
    seen_is_time_of_last_message [of "[\<lparr>Type = MessageRequest, Proc = 1, Time = 2\<rparr>,
        \<lparr>Type = MessageRelease, Proc = 1, Time = 4\<rparr>]" "[[], []]" 1 0]
    seen_is_time_of_last_message [of "[\<lparr>Type = MessageRequest, Proc = 1, Time = 2\<rparr>,
        \<lparr>Type = MessageRelease, Proc = 1, Time = 4\<rparr>]" "[[], []]" 0 0]
  by auto

text \<open>
  Claim C5 as stated fails when the times from one process decrease: after an
  acknowledgement of process 1 with time 5 and one with time 3, the entry for process 1
  is 3, and the highest time received from process 1 is 5.
\<close>

theorem seen_not_highest_time:
  "\<exists>s'. processAll (initState 0 [[], []])
       [\<lparr>Type = MessageAck, Proc = 1, Time = 5\<rparr>,
        \<lparr>Type = MessageAck, Proc = 1, Time = 3\<rparr>] = Inr s'
     \<and> sint (seen s' ! 1) = 3
     \<and> Max (set (map (\<lambda>m. sint (Time m))
          (filter (\<lambda>m. Proc m = 1)
            [\<lparr>Type = MessageAck, Proc = 1, Time = 5\<rparr>,
             \<lparr>Type = MessageAck, Proc = 1, Time = 3\<rparr>]))) = 5"
  by (simp add: initState_def heap_Init_def Len_def processMessage_def Let_def
      MessageRequest_def MessageRelease_def MessageAck_def)

section \<open>Sending\<close>

lemma length_send_others: "length (send_others cs self m) = length cs"
  by (simp add: send_others_def)

lemma nth_send_others:
  "q < length cs \<Longrightarrow>
     send_others cs self m ! q = (if int q \<noteq> sint self then cs ! q @ [m] else cs ! q)"
  by (simp add: send_others_def nth_enumerate_eq)

lemma sendRequestMsg_eq:
  "sendRequestMsg s =
     s\<lparr>time := time s + 1,
       chns := send_others (chns s) (proc s)
         \<lparr>Type = MessageRequest, Proc = proc s, Time = time s + 1\<rparr>,
       reqs := heap_Push (reqs s) \<lparr>Type = MessageRequest, Proc = proc s, Time = time s + 1\<rparr>,
       lock := False\<rparr>"
  by (simp add: sendRequestMsg_def Let_def)

lemma sendReleaseMsg_not_held:
  "\<not> fst (haveLock s) \<Longrightarrow> sendReleaseMsg s = Inl (LogFatal, s\<lparr>lock := False\<rparr>)"
proof -
  assume "\<not> fst (haveLock s)"
  with snd_haveLock [of s] have "haveLock s = (False, s\<lparr>lock := False\<rparr>)"
    by (cases "haveLock s") simp
  then show ?thesis by (simp add: sendReleaseMsg_def)
qed

lemma sendReleaseMsg_held:
  assumes "fst (haveLock s)"
  shows "\<exists>h. sendReleaseMsg s =
       Inr (s\<lparr>time := time s + 1,
              chns := send_others (chns s) (proc s)
                \<lparr>Type = MessageRelease, Proc = proc s, Time = time s + 1\<rparr>,
              reqs := h, lock := False\<rparr>)
     \<and> mset h = mset (reqs s) - {#reqs s ! 0#} \<and> length h = length (reqs s) - 1"
proof -
  from assms have "reqs s \<noteq> []" by (simp add: fst_haveLock)
  then obtain h where pop: "heap_Pop (reqs s) = Some (reqs s ! 0, h)"
    and h: "mset h = mset (reqs s) - {#reqs s ! 0#}" "length h = length (reqs s) - 1"
    by (rule heap_Pop_nonempty)
  obtain b s0 where hl: "haveLock s = (b, s0)" by (cases "haveLock s")
  with assms snd_haveLock [of s] have "b" "s0 = s\<lparr>lock := False\<rparr>" by simp_all
  with hl pop have "sendReleaseMsg s =
       Inr (s\<lparr>time := time s + 1,
              chns := send_others (chns s) (proc s)
                \<lparr>Type = MessageRelease, Proc = proc s, Time = time s + 1\<rparr>,
              reqs := h, lock := False\<rparr>)"
    by (simp add: sendReleaseMsg_def Let_def)
  with h show ?thesis by blast
qed

text \<open>
  Claim C7: \<^verbatim>\<open>sendReleaseMsg\<close> tests \<^verbatim>\<open>haveLock\<close> first. When the answer is false it
  aborts through \<^verbatim>\<open>log.Fatal\<close> in the state it was given (mutex released): the clock,
  the channels and the queue are untouched. When the answer is true it returns with
  the clock advanced by one, a release carrying the new clock appended to the channel of
  every other process and to no other, and the front entry (index \<open>0\<close>) removed from
  the queue.
\<close>

theorem sendReleaseMsg_checks_lock_first:
  "(\<not> fst (haveLock s) \<longrightarrow> sendReleaseMsg s = Inl (LogFatal, s\<lparr>lock := False\<rparr>)) \<and>
   (fst (haveLock s) \<longrightarrow>
      (\<exists>s'. sendReleaseMsg s = Inr s' \<and> time s' = time s + 1 \<and>
         length (chns s') = length (chns s) \<and>
         (\<forall>q<length (chns s). chns s' ! q =
            (if int q \<noteq> sint (proc s)
             then chns s ! q @ [\<lparr>Type = MessageRelease, Proc = proc s, Time = time s + 1\<rparr>]
             else chns s ! q)) \<and>
         mset (reqs s') = mset (reqs s) - {#reqs s ! 0#} \<and>
         length (reqs s') = length (reqs s) - 1 \<and>
         seen s' = seen s \<and> proc s' = proc s))"
proof (intro conjI impI)
  assume "\<not> fst (haveLock s)"
  then show "sendReleaseMsg s = Inl (LogFatal, s\<lparr>lock := False\<rparr>)"
    by (rule sendReleaseMsg_not_held)
next
  assume "fst (haveLock s)"
  from sendReleaseMsg_held [OF this] obtain h where
    "sendReleaseMsg s =
       Inr (s\<lparr>time := time s + 1,
              chns := send_others (chns s) (proc s)
                \<lparr>Type = MessageRelease, Proc = proc s, Time = time s + 1\<rparr>,
              reqs := h, lock := False\<rparr>)"
    and "mset h = mset (reqs s) - {#reqs s ! 0#}" and "length h = length (reqs s) - 1"
    by blast
  then show "\<exists>s'. sendReleaseMsg s = Inr s' \<and> time s' = time s + 1 \<and>
         length (chns s') = length (chns s) \<and>
         (\<forall>q<length (chns s). chns s' ! q =
            (if int q \<noteq> sint (proc s)
             then chns s ! q @ [\<lparr>Type = MessageRelease, Proc = proc s, Time = time s + 1\<rparr>]
             else chns s ! q)) \<and>
         mset (reqs s') = mset (reqs s) - {#reqs s ! 0#} \<and>
         length (reqs s') = length (reqs s) - 1 \<and>
         seen s' = seen s \<and> proc s' = proc s"
    by (simp add: length_send_others nth_send_others)
qed

theorem sendReleaseMsg_checks_lock_first_witness:
  "sendReleaseMsg \<lparr>time = 3, proc = 0, seen = [0, 1], chns = [[], []],
        reqs = [\<lparr>Type = MessageRequest, Proc = 0, Time = 2\<rparr>], lock = False\<rparr>
     = Inl (LogFatal, \<lparr>time = 3, proc = 0, seen = [0, 1], chns = [[], []],
        reqs = [\<lparr>Type = MessageRequest, Proc = 0, Time = 2\<rparr>], lock = False\<rparr>)
   \<and> (\<exists>s'. sendReleaseMsg \<lparr>time = 3, proc = 0, seen = [0, 3], chns = [[], []],
        reqs = [\<lparr>Type = MessageRequest, Proc = 0, Time = 2\<rparr>], lock = False\<rparr> = Inr s'
       \<and> time s' = 4 \<and> chns s' ! 0 = []
       \<and> chns s' ! 1 = [\<lparr>Type = MessageRelease, Proc = 0, Time = 4\<rparr>]
       \<and> reqs s' = [])"
proof -
  let ?a = "\<lparr>time = 3, proc = 0, seen = [0, 1], chns = [[], []],
        reqs = [\<lparr>Type = MessageRequest, Proc = 0, Time = 2\<rparr>], lock = False\<rparr>"
  let ?b = "\<lparr>time = 3, proc = 0, seen = [0, 3], chns = [[], []],
        reqs = [\<lparr>Type = MessageRequest, Proc = 0, Time = 2\<rparr>], lock = False\<rparr>"
  have a: "\<not> fst (haveLock ?a)"
    by (simp add: fst_haveLock allProcessesSeen_def)
  have b: "fst (haveLock ?b)"
    by (simp add: fst_haveLock allProcessesSeen_def)
  from a sendReleaseMsg_checks_lock_first [of ?a]
  have "sendReleaseMsg ?a = Inl (LogFatal, ?a)" by simp
  moreover from b sendReleaseMsg_checks_lock_first [of ?b]
  have "\<exists>s'. sendReleaseMsg ?b = Inr s' \<and> time s' = 4 \<and> chns s' ! 0 = []
       \<and> chns s' ! 1 = [\<lparr>Type = MessageRelease, Proc = 0, Time = 4\<rparr>] \<and> reqs s' = []"
    by (auto simp: All_less_Suc2)
  ultimately show ?thesis by blast
qed

section \<open>The clock\<close>

lemma sint_succ:
  fixes x :: go_int
  assumes "sint x < 2 ^ 63 - 1"
  shows "sint (x + 1) = sint x + 1"
proof -
  have "- (2 ^ 63) \<le> sint x" using sint_ge [of x] by simp
  with assms have "signed_take_bit 63 (sint x + 1) = sint x + 1"
    by (intro signed_take_bit_int_eq_self) simp_all
  then show ?thesis by (simp add: sint_word_ariths)
qed

lemma sendAckMsg_time:
  "sendAckMsg s t = Inr s' \<Longrightarrow> time s' = time s + 1"
  by (auto simp: sendAckMsg_def Let_def split: if_splits)

lemma processMessage_Inr_time:
  assumes "processMessage s m = Inr s'"
  shows "time s' = (if sint (time s) < sint (Time m) then Time m else time s) +
           (if Type m = MessageRequest then 1 else 0)"
proof -
  from assms have ix: "0 \<le> sint (Proc m)" "nat (sint (Proc m)) < length (seen s)"
    using processMessage_out_of_range [of m s] by auto
  consider (request) "Type m = MessageRequest" | (release) "Type m = MessageRelease"
    | (other) "Type m \<noteq> MessageRequest" "Type m \<noteq> MessageRelease"
    by blast
  then show ?thesis
  proof cases
    case request
    with assms ix have "nat (sint (Proc m)) < length (chns s)"
      using processMessage_Request_no_channel [of m s] by auto
    from processMessage_Request [OF ix this request] assms request show ?thesis
      by auto
  next
    case release
    then have "Type m \<noteq> MessageRequest"
      by (simp add: MessageRequest_def MessageRelease_def)
    with processMessage_Release [OF ix release] assms show ?thesis by auto
  next
    case other
    with processMessage_other [OF ix other] assms show ?thesis by auto
  qed
qed

text \<open>
  Claim C8, as amended: no operation lowers the clock, and after a message is processed
  the clock is at least the time of the message, as long as the value that an operation
  increments is below the largest \<^verbatim>\<open>int\<close>, \<open>2\<^sup>6\<^sup>3 - 1\<close>. Processing a release or an
  acknowledgement increments nothing and needs no such bound.
\<close>

theorem clock_non_decreasing_below_max_int:
  "(sint (time s) < 2 ^ 63 - 1 \<longrightarrow> sint (time s) \<le> sint (time (sendRequestMsg s))) \<and>
   (sint (time s) < 2 ^ 63 - 1 \<and> sendReleaseMsg s = Inr s1 \<longrightarrow>
      sint (time s) \<le> sint (time s1)) \<and>
   (sint (time s) < 2 ^ 63 - 1 \<and> sendAckMsg s t = Inr s2 \<longrightarrow>
      sint (time s) \<le> sint (time s2)) \<and>
   (processMessage s m = Inr s3 \<and>
    (Type m = MessageRequest \<longrightarrow> sint (time s) < 2 ^ 63 - 1 \<and> sint (Time m) < 2 ^ 63 - 1) \<longrightarrow>
      sint (time s) \<le> sint (time s3) \<and> sint (Time m) \<le> sint (time s3))"
proof (intro conjI impI)
  assume "sint (time s) < 2 ^ 63 - 1"
  then show "sint (time s) \<le> sint (time (sendRequestMsg s))"
    by (simp add: sendRequestMsg_eq sint_succ)
next
  assume a: "sint (time s) < 2 ^ 63 - 1 \<and> sendReleaseMsg s = Inr s1"
  then have "fst (haveLock s)"
    using sendReleaseMsg_not_held [of s] by auto
  from sendReleaseMsg_held [OF this] a have "time s1 = time s + 1" by auto
  with a show "sint (time s) \<le> sint (time s1)" by (simp add: sint_succ)
next
  assume "sint (time s) < 2 ^ 63 - 1 \<and> sendAckMsg s t = Inr s2"
  then show "sint (time s) \<le> sint (time s2)"
    by (auto simp: sint_succ dest: sendAckMsg_time)
next
  assume a: "processMessage s m = Inr s3 \<and>
    (Type m = MessageRequest \<longrightarrow> sint (time s) < 2 ^ 63 - 1 \<and> sint (Time m) < 2 ^ 63 - 1)"
  define c where "c = (if sint (time s) < sint (Time m) then Time m else time s)"
  have c: "sint (time s) \<le> sint c" "sint (Time m) \<le> sint c"
    by (simp_all add: c_def)
  from a have t: "time s3 = c + (if Type m = MessageRequest then 1 else 0)"
    by (simp add: processMessage_Inr_time c_def)
  have "sint c \<le> sint (time s3)"
  proof (cases "Type m = MessageRequest")
    case True
    with a have "sint c < 2 ^ 63 - 1" by (simp add: c_def)
    with t True show ?thesis by (simp add: sint_succ)
  next
    case False
    with t show ?thesis by simp
  qed
  with c show "sint (time s) \<le> sint (time s3)" and "sint (Time m) \<le> sint (time s3)"
    by simp_all
qed

theorem clock_non_decreasing_below_max_int_witness:
  "sint (time (initState 0 [[], []])) \<le> sint (time (sendRequestMsg (initState 0 [[], []])))
   \<and> (\<exists>s1. sendReleaseMsg \<lparr>time = 3, proc = 0, seen = [0, 3], chns = [[], []],
          reqs = [\<lparr>Type = MessageRequest, Proc = 0, Time = 2\<rparr>], lock = False\<rparr> = Inr s1
       \<and> 3 \<le> sint (time s1))
   \<and> (\<exists>s2. sendAckMsg (initState 0 [[], []]) 1 = Inr s2
       \<and> sint (time (initState 0 [[], []])) \<le> sint (time s2))
   \<and> (\<exists>s3. processMessage (initState 0 [[], []])
         \<lparr>Type = MessageRequest, Proc = 1, Time = 5\<rparr> = Inr s3
       \<and> sint (time (initState 0 [[], []])) \<le> sint (time s3) \<and> 5 \<le> sint (time s3))"
proof -
  let ?s = "initState 0 [[], []]"
  let ?b = "\<lparr>time = 3, proc = 0, seen = [0, 3], chns = [[], []],
          reqs = [\<lparr>Type = MessageRequest, Proc = 0, Time = 2\<rparr>], lock = False\<rparr>"
  let ?m = "\<lparr>Type = MessageRequest, Proc = 1, Time = 5\<rparr>"
  have s: "seen ?s = [0, 0]" "chns ?s = [[], []]" "time ?s = 1"
    by (simp_all add: initState_def Let_def)
  then obtain s3 where p: "processMessage ?s ?m = Inr s3"
    by (simp add: processMessage_Request)
  from s obtain s2 where a: "sendAckMsg ?s 1 = Inr s2"
    by (simp add: sendAckMsg_def Let_def)
  have "fst (haveLock ?b)"
    by (simp add: fst_haveLock allProcessesSeen_def)
  then obtain s1 where r: "sendReleaseMsg ?b = Inr s1"
    using sendReleaseMsg_held [of ?b] by blast
  from s have "sint (time ?s) < 2 ^ 63 - 1" by simp
  with p a clock_non_decreasing_below_max_int
    [where s = ?s and m = ?m and ?s3.0 = s3 and t = 1 and ?s2.0 = s2] s
  have "sint (time ?s) \<le> sint (time (sendRequestMsg ?s))"
    and "sint (time ?s) \<le> sint (time s2)"
    and "sint (time ?s) \<le> sint (time s3) \<and> 5 \<le> sint (time s3)"
    by simp_all
  moreover from r clock_non_decreasing_below_max_int [where s = ?b and ?s1.0 = s1]
  have "3 \<le> sint (time s1)" by simp
  ultimately show ?thesis using p a r by blast
qed

text \<open>
  Claim C8 as stated fails at the largest \<^verbatim>\<open>int\<close>: a new state (clock 1) that processes
  a request with time \<open>2\<^sup>6\<^sup>3 - 1\<close> takes that time as its clock and then increments it for
  the acknowledgement, which wraps to \<open>- 2\<^sup>6\<^sup>3\<close>: the clock is below its former value and
  below the time of the message.
\<close>

theorem clock_wraps_at_max_int:
  "\<exists>s'. processMessage (initState 0 [[], []])
       \<lparr>Type = MessageRequest, Proc = 1, Time = 0x7FFFFFFFFFFFFFFF\<rparr> = Inr s'
     \<and> sint (time s') = - (2 ^ 63)
     \<and> sint (time s') < sint (time (initState 0 [[], []]))
     \<and> sint (time s') < sint (0x7FFFFFFFFFFFFFFF :: go_int)"
proof -
  let ?s = "initState 0 [[], []]"
  let ?m = "\<lparr>Type = MessageRequest, Proc = 1, Time = 0x7FFFFFFFFFFFFFFF\<rparr>"
  have s: "seen ?s = [0, 0]" "chns ?s = [[], []]" "time ?s = 1"
    by (simp_all add: initState_def Let_def)
  then show ?thesis
    by (simp add: processMessage_Request)
qed

section \<open>The queue invariant\<close>

















section \<open>Construction\<close>

lemma heap_Push_Nil: "heap_Push [] x = [x]"
proof -
  have "up [x] 0 = [x]" by (subst up.simps) simp
  then show ?thesis by (simp add: heap_Push_def Push_def Len_def)
qed

text \<open>
  Claim C10, as amended: a new state has clock 1, a \<open>seen\<close> vector of zeros with one
  entry per channel, and an empty queue; a request sent from the new state, before any
  message is processed, carries time 2, in the queue and in the channel of every other
  process.
\<close>

theorem initState_then_request:
  "time (initState p cs) = 1 \<and> seen (initState p cs) = replicate (length cs) 0 \<and>
   reqs (initState p cs) = [] \<and>
   reqs (sendRequestMsg (initState p cs)) = [\<lparr>Type = MessageRequest, Proc = p, Time = 2\<rparr>] \<and>
   length (chns (sendRequestMsg (initState p cs))) = length cs \<and>
   (\<forall>q<length cs. chns (sendRequestMsg (initState p cs)) ! q =
      (if int q \<noteq> sint p then cs ! q @ [\<lparr>Type = MessageRequest, Proc = p, Time = 2\<rparr>]
       else cs ! q))"
  by (simp add: initState_def Let_def heap_Init_def Len_def sendRequestMsg_eq
      heap_Push_Nil length_send_others nth_send_others)

theorem initState_then_request_witness:
  "time (initState 0 [[], []]) = 1 \<and> seen (initState 0 [[], []]) = [0, 0] \<and>
   reqs (initState 0 [[], []]) = [] \<and>
   chns (sendRequestMsg (initState 0 [[], []])) ! 1
     = [\<lparr>Type = MessageRequest, Proc = 0, Time = 2\<rparr>] \<and>
   chns (sendRequestMsg (initState 0 [[], []])) ! 0 = []"
  using initState_then_request [of 0 "[[], []]"]
  by (simp add: All_less_Suc2)

text \<open>
  Claim C10 as stated fails for a process that serves a message before its first
  request: process 1, new, processes the request of process 0 (time 2), which takes
  its clock to 3; the first request it then sends carries time 4.
\<close>

theorem first_request_after_a_message:
  "\<exists>s1. processMessage (initState 1 [[], []])
       \<lparr>Type = MessageRequest, Proc = 0, Time = 2\<rparr> = Inr s1
     \<and> last (chns (sendRequestMsg s1) ! 0) = \<lparr>Type = MessageRequest, Proc = 1, Time = 4\<rparr>
     \<and> last (reqs (sendRequestMsg s1)) = \<lparr>Type = MessageRequest, Proc = 1, Time = 4\<rparr>"
proof -
  let ?s1 = "\<lparr>time = 3, proc = 1, seen = [2, 0],
      chns = [[\<lparr>Type = MessageAck, Proc = 1, Time = 3\<rparr>], []],
      reqs = [\<lparr>Type = MessageRequest, Proc = 0, Time = 2\<rparr>], lock = False\<rparr>"
  have "processMessage (initState 1 [[], []])
       \<lparr>Type = MessageRequest, Proc = 0, Time = 2\<rparr> = Inr ?s1"
    by code_simp
  moreover have "sendRequestMsg ?s1 =
     \<lparr>time = 4, proc = 1, seen = [2, 0],
      chns = [[\<lparr>Type = MessageAck, Proc = 1, Time = 3\<rparr>,
               \<lparr>Type = MessageRequest, Proc = 1, Time = 4\<rparr>], []],
      reqs = [\<lparr>Type = MessageRequest, Proc = 0, Time = 2\<rparr>,
              \<lparr>Type = MessageRequest, Proc = 1, Time = 4\<rparr>], lock = False\<rparr>"
    by code_simp
  ultimately show ?thesis by simp
qed

end
